theory Spec2Isabelle
  imports Main
begin

section \<open>Non-standard dice: generation, comparison, and pruning of the win/lose graph\<close>

text \<open>
  The development follows \<^verbatim>\<open>main.py\<close>. A die is a Python tuple of integers; Python
  integers are unbounded, so faces are \<^typ>\<open>int\<close>.
\<close>

type_synonym die = "int list"

subsection \<open>Default values\<close>

definition MIN_VALUE :: int where "MIN_VALUE = 0"
definition MAX_VALUE :: int where "MAX_VALUE = 4"
definition SIDES :: int where "SIDES = 4"

subsection \<open>The die generator\<close>

text \<open>
  \<^verbatim>\<open>
  def die_generator(*, min_value=MIN_VALUE, max_value=MAX_VALUE, sides=SIDES):
      for first_side in range(min_value, max_value + 1):
          if sides == 1:
              yield (first_side,)
          else:
              gen = die_generator(min_value=0, max_value=first_side, sides=sides - 1)
              yield from ((first_side,) + die for die in gen)
  \<close>
  The generator is modelled by the list of the dice it yields, in the order it yields
  them. The recursion goes down on \<open>sides\<close> and stops only at \<open>sides == 1\<close>: called with
  \<open>sides < 1\<close> and a range that holds a non-negative value, it never reaches the base
  case, and Python ends it with a \<open>RecursionError\<close>. The model therefore carries the
  number of nested generator frames that may still be opened (\<open>depth\<close>), and \<open>None\<close> is
  the run that needs more frames than that.

  \<open>yield_from\<close> chains the sequences of the successive loop iterations; it fails as soon
  as one of them fails.
\<close>

fun yield_from :: "'a list option list \<Rightarrow> 'a list option" where
  "yield_from [] = Some []"
| "yield_from (None # rs) = None"
| "yield_from (Some xs # rs) = map_option ((@) xs) (yield_from rs)"

fun die_generator :: "nat \<Rightarrow> int \<Rightarrow> int \<Rightarrow> int \<Rightarrow> die list option" where
  "die_generator 0 min_value max_value sides = None"
| "die_generator (Suc depth) min_value max_value sides =
     yield_from
       (map (\<lambda>first_side.
               if sides = 1 then Some [[first_side]]
               else map_option (map ((#) first_side))
                      (die_generator depth 0 first_side (sides - 1)))
            [min_value..max_value])"

subsection \<open>The pairwise comparator\<close>

text \<open>
  \<^verbatim>\<open>
  def is_best(this, oponent):
      total = len(this) * len(oponent)
      count = 0
      ties = 0
      for side1 in this:
          count += sum(1 for side2 in oponent if side1 > side2)
          ties += sum(1 for side2 in oponent if side1 == side2)
      return count > total - ties - count
  \<close>
  The loop over \<open>this\<close> is a \<open>fold\<close> that threads the pair \<open>(count, ties)\<close>.
\<close>

definition is_best_loop :: "die \<Rightarrow> die \<Rightarrow> int \<times> int" where
  "is_best_loop this oponent =
     fold (\<lambda>side1 (count, ties).
             (count + sum_list (map (\<lambda>side2. 1) (filter (\<lambda>side2. side1 > side2) oponent)),
              ties + sum_list (map (\<lambda>side2. 1) (filter (\<lambda>side2. side1 = side2) oponent))))
          this (0, 0)"

definition is_best :: "die \<Rightarrow> die \<Rightarrow> bool" where
  "is_best this oponent =
     (let total = int (length this) * int (length oponent);
          (count, ties) = is_best_loop this oponent
      in count > total - ties - count)"

subsection \<open>The relation graph and its construction\<close>

text \<open>
  The graph is a \<open>defaultdict\<close> from a die to a pair of lists \<open>(win_against, lose_against)\<close>.
  A Python dictionary keeps its keys in insertion order and \<open>clean\<close> walks it in that
  order, so the graph is an association list. The default factory builds two fresh lists
  for every new key: no two entries share a list, and the lists are plain values.
\<close>

type_synonym graph = "(die \<times> (die list \<times> die list)) list"

text \<open>\<open>graph[key]\<close> on the \<open>defaultdict\<close>: a missing key is inserted with \<open>([], [])\<close>.\<close>

definition getitem :: "graph \<Rightarrow> die \<Rightarrow> graph" where
  "getitem graph key =
     (if key \<in> set (map fst graph) then graph else graph @ [(key, ([], []))])"

text \<open>\<open>graph[this][0].append(oponent)\<close> and \<open>graph[oponent][1].append(this)\<close>.\<close>

definition append_win :: "die \<Rightarrow> die \<Rightarrow> graph \<Rightarrow> graph" where
  "append_win this oponent graph =
     map (\<lambda>(die, (w, l)). if die = this then (die, (w @ [oponent], l)) else (die, (w, l)))
         (getitem graph this)"

definition append_lose :: "die \<Rightarrow> die \<Rightarrow> graph \<Rightarrow> graph" where
  "append_lose oponent this graph =
     map (\<lambda>(die, (w, l)). if die = oponent then (die, (w, l @ [this])) else (die, (w, l)))
         (getitem graph oponent)"

text \<open>
  \<^verbatim>\<open>
  for this in die_generator():
      for oponent in die_generator():
          if is_best(this, oponent):
              graph[this][0].append(oponent)
              graph[oponent][1].append(this)
  \<close>
  \<open>compare_pair\<close> is the body of the inner loop; \<open>build_steps\<close> runs it over a sequence
  of ordered pairs, and \<open>build_graph\<close> is the two nested loops over the generated dice.
  \<open>main\<close> calls \<open>die_generator()\<close> with the default values for both loops; the
  generator has no state, so every call yields the same sequence \<open>dice\<close>.
\<close>

definition compare_pair :: "die \<Rightarrow> die \<Rightarrow> graph \<Rightarrow> graph" where
  "compare_pair this oponent graph =
     (if is_best this oponent
      then append_lose oponent this (append_win this oponent graph)
      else graph)"

definition build_steps :: "(die \<times> die) list \<Rightarrow> graph \<Rightarrow> graph" where
  "build_steps pairs graph = fold (\<lambda>(this, oponent). compare_pair this oponent) pairs graph"

definition build_graph :: "die list \<Rightarrow> graph" where
  "build_graph dice =
     fold (\<lambda>this graph. fold (\<lambda>oponent graph. compare_pair this oponent graph) dice graph)
          dice []"

subsection \<open>The reducer\<close>

text \<open>
  \<^verbatim>\<open>
  def clean(graph):
      while True:
          to_delete = [die for die, (w, l) in graph.items() if len(w) == 0 or len(l) == 0]
          if len(to_delete) == 0:
              break
          for die in to_delete:
              del graph[die]
          for (w, l) in graph.values():
              for die in to_delete:
                  if die in w:
                      w.remove(die)
                  if die in l:
                      l.remove(die)
  \<close>
  \<open>list.remove\<close> deletes the first occurrence only, which is \<open>remove1\<close>.
  \<open>del graph[die]\<close> raises \<open>KeyError\<close> on a missing key; \<open>to_delete\<close> lists keys of
  the dictionary, each once, so every key is present when it is deleted (lemma
  \<open>del_item_key_present\<close> below) and \<open>del_item\<close> has no error branch.
\<close>

definition to_delete :: "graph \<Rightarrow> die list" where
  "to_delete graph =
     map fst (filter (\<lambda>(die, (w, l)). length w = 0 \<or> length l = 0) graph)"

definition del_item :: "die \<Rightarrow> graph \<Rightarrow> graph" where
  "del_item key graph = filter (\<lambda>(die, wl). die \<noteq> key) graph"

definition remove_refs :: "die list \<Rightarrow> die list \<times> die list \<Rightarrow> die list \<times> die list" where
  "remove_refs dead wl =
     fold (\<lambda>die (w, l).
             (if die \<in> set w then remove1 die w else w,
              if die \<in> set l then remove1 die l else l))
          dead wl"

definition clean_pass :: "graph \<Rightarrow> graph" where
  "clean_pass graph =
     (let dead = to_delete graph;
          graph1 = fold del_item dead graph
      in map (\<lambda>(die, wl). (die, remove_refs dead wl)) graph1)"

lemma length_fold_del_item: "length (fold del_item dead graph) \<le> length graph"
proof (induction dead arbitrary: graph)
  case Nil
  show ?case by simp
next
  case (Cons d dead)
  have "length (fold del_item dead (del_item d graph)) \<le> length (del_item d graph)"
    by (rule Cons.IH)
  also have "\<dots> \<le> length graph"
    by (simp add: del_item_def)
  finally show ?case by simp
qed

lemma clean_pass_shrinks:
  assumes "to_delete graph \<noteq> []"
  shows "length (clean_pass graph) < length graph"
proof -
  obtain d dead where td: "to_delete graph = d # dead"
    using assms by (cases "to_delete graph") auto
  have "d \<in> set (to_delete graph)"
    by (simp add: td)
  then obtain wl where "(d, wl) \<in> set graph"
    by (auto simp: to_delete_def)
  then have "length (del_item d graph) < length graph"
    unfolding del_item_def by (rule length_filter_less) simp
  moreover have "length (fold del_item dead (del_item d graph)) \<le> length (del_item d graph)"
    by (rule length_fold_del_item)
  ultimately show ?thesis
    by (simp add: clean_pass_def td Let_def)
qed

function clean :: "graph \<Rightarrow> graph" where
  "clean graph =
     (if length (to_delete graph) = 0 then graph else clean (clean_pass graph))"
  by pat_completeness auto
termination
  by (relation "measure length") (auto intro: clean_pass_shrinks)

declare clean.simps [simp del]

subsection \<open>Notions used to state the properties\<close>

text \<open>
  The comparator as the specification words it: over all ordered face pairs, \<open>wins\<close>
  counts the pairs where the first die's face is greater and \<open>ties\<close> the pairs where
  the faces are equal; the first die is better iff
  \<open>wins > m * n - ties - wins\<close>. These definitions follow the specification, not the
  code, and are compared with \<open>is_best\<close> below.
\<close>

definition spec_wins :: "die \<Rightarrow> die \<Rightarrow> int" where
  "spec_wins A B = int (length (filter (\<lambda>(a, b). a > b) (List.product A B)))"

definition spec_ties :: "die \<Rightarrow> die \<Rightarrow> int" where
  "spec_ties A B = int (length (filter (\<lambda>(a, b). a = b) (List.product A B)))"

definition is_best_spec :: "die \<Rightarrow> die \<Rightarrow> bool" where
  "is_best_spec A B =
     (spec_wins A B > int (length A) * int (length B) - spec_ties A B - spec_wins A B)"


text \<open>
  Python's order on tuples (lexicographic, a proper prefix first), and the two orders a
  sequence of dice can be enumerated in: every earlier die greater than every later one,
  or every earlier die smaller than every later one.
\<close>

fun tuple_less :: "die \<Rightarrow> die \<Rightarrow> bool" where
  "tuple_less [] [] = False"
| "tuple_less [] (y # ys) = True"
| "tuple_less (x # xs) [] = False"
| "tuple_less (x # xs) (y # ys) = (x < y \<or> (x = y \<and> tuple_less xs ys))"

definition descending_first :: "die list \<Rightarrow> bool" where
  "descending_first dice = sorted_wrt (\<lambda>earlier later. tuple_less later earlier) dice"

definition ascending_first :: "die list \<Rightarrow> bool" where
  "ascending_first dice = sorted_wrt (\<lambda>earlier later. tuple_less earlier later) dice"


text \<open>
  Properties of a graph, each over the entries \<open>die: (w, l)\<close> of the dictionary: no die
  is in its own lists; \<open>B\<close> is in the win-list of \<open>A\<close> exactly when \<open>A\<close> is in the
  lose-list of \<open>B\<close>; no list holds a die twice; every die in a list is a key.
\<close>

definition no_self_edges :: "graph \<Rightarrow> bool" where
  "no_self_edges graph = (\<forall>(die, (w, l)) \<in> set graph. die \<notin> set w \<and> die \<notin> set l)"

definition symmetric_graph :: "graph \<Rightarrow> bool" where
  "symmetric_graph graph =
     (\<forall>(A, (wA, lA)) \<in> set graph. \<forall>(B, (wB, lB)) \<in> set graph.
        (B \<in> set wA \<longleftrightarrow> A \<in> set lB))"

definition no_duplicates :: "graph \<Rightarrow> bool" where
  "no_duplicates graph = (\<forall>(die, (w, l)) \<in> set graph. distinct w \<and> distinct l)"

definition closed_graph :: "graph \<Rightarrow> bool" where
  "closed_graph graph =
     (\<forall>(die, (w, l)) \<in> set graph. set w \<subseteq> fst ` set graph \<and> set l \<subseteq> fst ` set graph)"


text \<open>
  Bookkeeping for the construction: every die in a win-list (lose-list) was put there by
  one comparison of the sequence \<open>pairs\<close>, and no list holds a die twice.
\<close>

definition wins_recorded :: "(die \<times> die) list \<Rightarrow> graph \<Rightarrow> bool" where
  "wins_recorded pairs graph =
     (\<forall>(die, (w, l)) \<in> set graph. distinct w \<and> (\<forall>oponent\<in>set w. (die, oponent) \<in> set pairs))"

definition loses_recorded :: "(die \<times> die) list \<Rightarrow> graph \<Rightarrow> bool" where
  "loses_recorded pairs graph =
     (\<forall>(die, (w, l)) \<in> set graph. distinct l \<and> (\<forall>this\<in>set l. (this, die) \<in> set pairs))"


text \<open>
  What the specification asks of the generator: a die is a non-increasing tuple of
  length \<open>sides\<close> with every face in \<open>[min_value, max_value]\<close>, and there are
  \<open>C(max_value - min_value + sides, sides)\<close> of them.
\<close>

definition valid_die :: "int \<Rightarrow> int \<Rightarrow> int \<Rightarrow> die \<Rightarrow> bool" where
  "valid_die min_value max_value sides d =
     (int (length d) = sides \<and> sorted_wrt (\<ge>) d
      \<and> list_all (\<lambda>face. min_value \<le> face \<and> face \<le> max_value) d)"

definition expected_count :: "int \<Rightarrow> int \<Rightarrow> int \<Rightarrow> nat" where
  "expected_count min_value max_value sides =
     nat (max_value - min_value + sides) choose nat sides"


text \<open>
  Two small sets of dice used as concrete inputs: three 3-sided dice that beat each
  other in a cycle, and the three 2-sided dice with faces 0 and 1.
\<close>

definition cyclic_dice :: "die list" where
  "cyclic_dice = [[9, 4, 2], [8, 6, 1], [7, 5, 3]]"

definition binary_dice :: "die list" where
  "binary_dice = [[0, 0], [1, 0], [1, 1]]"

section \<open>The die generator\<close>

lemma yield_from_Some_iff:
  "yield_from (map f vs) = Some ds \<longleftrightarrow>
     (\<forall>v\<in>set vs. f v \<noteq> None) \<and> ds = concat (map (\<lambda>v. the (f v)) vs)"
proof (induction vs arbitrary: ds)
  case Nil
  show ?case by auto
next
  case (Cons v vs)
  show ?case
  proof (cases "f v")
    case None
    then show ?thesis by simp
  next
    case (Some xs)
    then show ?thesis by (auto simp: Cons.IH)
  qed
qed

lemma die_generator_Suc_iff:
  "die_generator (Suc depth) mn mx s = Some ds \<longleftrightarrow>
     (s \<noteq> 1 \<longrightarrow> (\<forall>v\<in>{mn..mx}. die_generator depth 0 v (s - 1) \<noteq> None)) \<and>
     ds = concat (map (\<lambda>v. if s = 1 then [[v]]
                            else map ((#) v) (the (die_generator depth 0 v (s - 1)))) [mn..mx])"
  (is "?L \<longleftrightarrow> ?A \<and> ds = concat (map ?g [mn..mx])")
proof -
  let ?f = "\<lambda>first_side. if s = 1 then Some [[first_side]]
               else map_option (map ((#) first_side)) (die_generator depth 0 first_side (s - 1))"
  have L: "?L \<longleftrightarrow> (\<forall>v\<in>set [mn..mx]. ?f v \<noteq> None) \<and> ds = concat (map (\<lambda>v. the (?f v)) [mn..mx])"
    by (simp only: die_generator.simps yield_from_Some_iff)
  have A: "(\<forall>v\<in>set [mn..mx]. ?f v \<noteq> None) \<longleftrightarrow> ?A"
    by auto
  have "the (?f v) = ?g v" if "?A" "v \<in> set [mn..mx]" for v
    using that by (auto simp: option.map_sel)
  then have meq: "map (\<lambda>v. the (?f v)) [mn..mx] = map ?g [mn..mx]" if "?A"
    using that by (intro map_cong refl) blast
  show ?thesis
  proof (cases "?A")
    case True
    then have "?L \<longleftrightarrow> ds = concat (map (\<lambda>v. the (?f v)) [mn..mx])"
      using L A by blast
    also have "\<dots> \<longleftrightarrow> ds = concat (map ?g [mn..mx])"
      by (simp only: meq[OF True])
    finally show ?thesis
      using True by blast
  next
    case False
    then have "\<not> ?L"
      using L A by blast
    then show ?thesis
      using False by blast
  qed
qed

lemma die_generator_total:
  "1 \<le> s \<Longrightarrow> nat s \<le> depth \<Longrightarrow> \<exists>ds. die_generator depth mn mx s = Some ds"
proof (induction depth arbitrary: mn mx s)
  case 0
  then show ?case by simp
next
  case (Suc depth)
  show ?case
  proof (cases "s = 1")
    case True
    then show ?thesis unfolding die_generator_Suc_iff by simp
  next
    case False
    then have "1 \<le> s - 1" "nat (s - 1) \<le> depth"
      using Suc.prems by auto
    then have "\<forall>v\<in>{mn..mx}. die_generator depth 0 v (s - 1) \<noteq> None"
      using Suc.IH by fastforce
    then show ?thesis
      unfolding die_generator_Suc_iff by simp
  qed
qed


subsection \<open>Order of enumeration\<close>

lemma tuple_less_irrefl: "\<not> tuple_less d d"
  by (induction d) auto

lemma sorted_wrt_concat_map:
  assumes "sorted_wrt Q vs"
    and "\<And>v. v \<in> set vs \<Longrightarrow> sorted_wrt P (g v)"
    and "\<And>u v a b. Q u v \<Longrightarrow> a \<in> set (g u) \<Longrightarrow> b \<in> set (g v) \<Longrightarrow> P a b"
  shows "sorted_wrt P (concat (map g vs))"
  using assms by (induction vs) (auto simp: sorted_wrt_append)

lemma sorted_wrt_distinct:
  "sorted_wrt P xs \<Longrightarrow> (\<And>x. \<not> P x x) \<Longrightarrow> distinct xs"
  by (induction xs) auto

lemma die_generator_ascending:
  "die_generator depth mn mx s = Some ds \<Longrightarrow> 1 \<le> s \<Longrightarrow> sorted_wrt tuple_less ds"
proof (induction depth arbitrary: mn mx s ds)
  case 0
  then show ?case by simp
next
  case (Suc depth)
  let ?g = "\<lambda>v. if s = 1 then [[v]]
                else map ((#) v) (the (die_generator depth 0 v (s - 1)))"
  from Suc.prems(1) have sub: "s \<noteq> 1 \<longrightarrow> (\<forall>v\<in>{mn..mx}. die_generator depth 0 v (s - 1) \<noteq> None)"
    and ds: "ds = concat (map ?g [mn..mx])"
    unfolding die_generator_Suc_iff by blast+
  have "sorted_wrt tuple_less (?g v)" if "v \<in> set [mn..mx]" for v
  proof (cases "s = 1")
    case True
    then show ?thesis by simp
  next
    case False
    have "die_generator depth 0 v (s - 1) \<noteq> None"
      using sub that False by simp
    then obtain ys where ys: "die_generator depth 0 v (s - 1) = Some ys"
      by blast
    have "sorted_wrt tuple_less ys"
      using Suc.IH[OF ys] False Suc.prems(2) by simp
    then have "sorted_wrt tuple_less (map ((#) v) ys)"
      by (simp add: sorted_wrt_map)
    with ys False show ?thesis by simp
  qed
  moreover have "tuple_less a b" if "u < v" "a \<in> set (?g u)" "b \<in> set (?g v)" for u v a b
    using that by (auto split: if_splits)
  ultimately have "sorted_wrt tuple_less (concat (map ?g [mn..mx]))"
    by (intro sorted_wrt_concat_map[where Q = "(<)"]) auto
  with ds show ?case by simp
qed

lemma die_generator_distinct:
  "die_generator depth mn mx s = Some ds \<Longrightarrow> 1 \<le> s \<Longrightarrow> distinct ds"
  using die_generator_ascending sorted_wrt_distinct tuple_less_irrefl by blast


text \<open>
  Claim C2 (as stated): the dice are yielded descending-value-first, a die with a
  greater first face before any die with a smaller first face. The loop runs
  \<open>range(min_value, max_value + 1)\<close> upwards, so the claim fails: with faces 0 and 1 and
  two sides the generator yields \<open>(0,0), (1,0), (1,1)\<close>.
\<close>

theorem die_generator_order_counterexample:
  "die_generator 2 0 1 2 = Some [[0, 0], [1, 0], [1, 1]]
   \<and> \<not> descending_first [[0, 0], [1, 0], [1, 1]]"
proof -
  have "die_generator 2 0 1 2 = Some [[0, 0], [1, 0], [1, 1]]"
    by code_simp
  moreover have "\<not> descending_first [[0, 0], [1, 0], [1, 1]]"
    by (simp add: descending_first_def)
  ultimately show ?thesis by simp
qed

text \<open>
  Claim C2 (amended): for every configuration with \<open>sides \<ge> 1\<close> the generator returns,
  and the sequence is in ascending-value-first, depth-first order: a die whose first
  face is smaller is yielded before any die whose first face is greater, and
  recursively so for the remaining faces (the sequence is strictly increasing in the
  lexicographic order of tuples).
\<close>

theorem die_generator_ascending_first:
  assumes "1 \<le> sides" and "nat sides \<le> depth"
  shows "\<exists>dice. die_generator depth min_value max_value sides = Some dice
                \<and> ascending_first dice"
proof -
  obtain dice where dice: "die_generator depth min_value max_value sides = Some dice"
    using die_generator_total[OF assms] by blast
  then have "sorted_wrt tuple_less dice"
    using assms(1) by (rule die_generator_ascending)
  then have "ascending_first dice"
    by (simp add: ascending_first_def)
  with dice show ?thesis by blast
qed

theorem die_generator_ascending_first_witness:
  "(1::int) \<le> 2 \<and> nat 2 \<le> (2::nat)
   \<and> die_generator 2 0 1 2 = Some binary_dice \<and> ascending_first binary_dice"
proof -
  have gen: "die_generator 2 0 1 2 = Some binary_dice"
    unfolding binary_dice_def by code_simp
  have "\<exists>dice. die_generator 2 0 1 2 = Some dice \<and> ascending_first dice"
    by (rule die_generator_ascending_first) simp_all
  with gen show ?thesis by simp
qed

subsection \<open>Count and shape of the dice\<close>

text \<open>
  With \<open>min_value = 0\<close>, the configuration of \<open>main\<close>, the generator yields
  \<open>C(max_value + sides, sides)\<close> dice, each a non-increasing tuple of \<open>sides\<close> faces in
  \<open>[0, max_value]\<close>, and none twice.
\<close>

lemma sum_upto_choose:
  "0 \<le> mx \<Longrightarrow> (\<Sum>v\<leftarrow>[0..mx]. (nat v + k) choose k) = (nat mx + k + 1) choose (k + 1)"
proof (induction mx rule: int_ge_induct)
  case base
  show ?case by simp
next
  case (step i)
  have "[0..i + 1] = [0..i] @ [i + 1]"
    using step.hyps by (simp add: upto_rec2)
  moreover have "nat (i + 1) = Suc (nat i)"
    using step.hyps by simp
  ultimately show ?case
    using step.IH by simp
qed

lemma valid_die_Cons:
  assumes "valid_die 0 v (s - 1) t" "0 \<le> v" "v \<le> mx"
  shows "valid_die 0 mx s (v # t)"
  using assms unfolding valid_die_def by (auto simp: list_all_iff)

lemma die_generator_zero_min:
  "die_generator depth 0 mx s = Some ds \<Longrightarrow> 1 \<le> s \<Longrightarrow> 0 \<le> mx \<Longrightarrow>
     length ds = expected_count 0 mx s \<and> (\<forall>d\<in>set ds. valid_die 0 mx s d)"
proof (induction depth arbitrary: mx s ds)
  case 0
  then show ?case by simp
next
  case (Suc depth)
  let ?g = "\<lambda>v. if s = 1 then [[v]]
                else map ((#) v) (the (die_generator depth 0 v (s - 1)))"
  from Suc.prems(1) have sub: "s \<noteq> 1 \<longrightarrow> (\<forall>v\<in>{0..mx}. die_generator depth 0 v (s - 1) \<noteq> None)"
    and ds: "ds = concat (map ?g [0..mx])"
    unfolding die_generator_Suc_iff by blast+
  show ?case
  proof (cases "s = 1")
    case True
    then have "ds = map (\<lambda>v. [v]) [0..mx]"
      using ds by (simp add: concat_map_singleton)
    then show ?thesis
      using True Suc.prems(3) by (auto simp: expected_count_def valid_die_def)
  next
    case False
    define k where "k = nat (s - 1)"
    have k: "nat s = k + 1" "1 \<le> s - 1"
      using False Suc.prems(2) by (auto simp: k_def)
    have each: "length (?g v) = (nat v + k) choose k \<and> (\<forall>d\<in>set (?g v). valid_die 0 mx s d)"
      if v: "v \<in> set [0..mx]" for v
    proof -
      have "die_generator depth 0 v (s - 1) \<noteq> None"
        using sub v False by simp
      then obtain ys where ys: "die_generator depth 0 v (s - 1) = Some ys"
        by blast
      have v0: "0 \<le> v" "v \<le> mx"
        using v by auto
      have ih: "length ys = expected_count 0 v (s - 1) \<and> (\<forall>d\<in>set ys. valid_die 0 v (s - 1) d)"
        using Suc.IH[OF ys k(2) v0(1)] .
      have "nat (v + (s - 1)) = nat v + k"
        using v0(1) k(2) by (simp add: k_def nat_add_distrib)
      then have "length (?g v) = (nat v + k) choose k"
        using ih ys False by (simp add: expected_count_def k_def)
      moreover have "\<forall>d\<in>set (?g v). valid_die 0 mx s d"
        using ih ys False v0 by (auto intro: valid_die_Cons)
      ultimately show ?thesis by blast
    qed
    have "length ds = (\<Sum>v\<leftarrow>[0..mx]. length (?g v))"
      unfolding ds by (simp add: length_concat comp_def)
    also have "\<dots> = (\<Sum>v\<leftarrow>[0..mx]. (nat v + k) choose k)"
      using each by (intro arg_cong[where f = sum_list] map_cong refl) blast
    also have "\<dots> = (nat mx + k + 1) choose (k + 1)"
      using Suc.prems(3) by (rule sum_upto_choose)
    also have "\<dots> = expected_count 0 mx s"
      using Suc.prems(2,3) k(1) by (simp add: expected_count_def nat_add_distrib)
    finally have "length ds = expected_count 0 mx s" .
    moreover have "\<forall>d\<in>set ds. valid_die 0 mx s d"
      unfolding ds using each by auto
    ultimately show ?thesis by blast
  qed
qed

lemma die_generator_default_range:
  assumes "1 \<le> sides" "nat sides \<le> depth" "0 \<le> max_value"
  shows "\<exists>dice. die_generator depth 0 max_value sides = Some dice
           \<and> length dice = expected_count 0 max_value sides
           \<and> (\<forall>d\<in>set dice. valid_die 0 max_value sides d)
           \<and> distinct dice"
proof -
  obtain dice where dice: "die_generator depth 0 max_value sides = Some dice"
    using die_generator_total[OF assms(1,2)] by blast
  moreover have "length dice = expected_count 0 max_value sides
           \<and> (\<forall>d\<in>set dice. valid_die 0 max_value sides d)"
    using dice assms(1,3) by (rule die_generator_zero_min)
  moreover have "distinct dice"
    using dice assms(1) by (rule die_generator_distinct)
  ultimately show ?thesis by blast
qed


text \<open>
  Claim C1: for every valid configuration (\<open>min_value \<le> max_value\<close>, \<open>sides \<ge> 1\<close>) the
  generator produces exactly \<open>C(max_value - min_value + sides, sides)\<close> dice, each a
  non-increasing tuple of length \<open>sides\<close> with every face in \<open>[min_value, max_value]\<close>,
  and none twice. The recursive call passes \<open>min_value=0\<close> instead of the caller's
  \<open>min_value\<close>, so with a positive minimum the faces after the first range from 0:
  \<open>die_generator(min_value=1, max_value=1, sides=2)\<close> yields \<open>(1,0), (1,1)\<close>, two dice
  where the claim counts one, the first with a face below the minimum.
\<close>

theorem die_generator_ignores_min_value:
  "die_generator 2 1 1 2 = Some [[1, 0], [1, 1]]
   \<and> length [[1, 0], [1, 1 :: int]] \<noteq> expected_count 1 1 2
   \<and> \<not> valid_die 1 1 2 [1, 0]"
proof -
  have "die_generator 2 1 1 2 = Some [[1, 0], [1, 1]]"
    by code_simp
  moreover have "expected_count 1 1 2 = 1"
    by (simp add: expected_count_def)
  moreover have "\<not> valid_die 1 1 2 [1, 0]"
    by (simp add: valid_die_def)
  ultimately show ?thesis by simp
qed


section \<open>The comparator\<close>

lemma sum_list_ones: "sum_list (map (\<lambda>x. 1) xs) = int (length xs)"
  by (induction xs) auto

lemma filter_product_Cons:
  "length (filter P (List.product (a # A) B)) =
     length (filter (\<lambda>b. P (a, b)) B) + length (filter P (List.product A B))"
  by (simp add: filter_map o_def)

lemma filter_product_Cons2:
  "length (filter P (List.product A (b # B))) =
     length (filter (\<lambda>a. P (a, b)) A) + length (filter P (List.product A B))"
  by (induction A) (auto simp: filter_map o_def)

lemma filter_product_swap:
  "length (filter P (List.product A B)) = length (filter (\<lambda>(b, a). P (a, b)) (List.product B A))"
proof (induction A)
  case Nil
  show ?case by (induction B) auto
next
  case (Cons a A)
  show ?case
    by (simp only: filter_product_Cons filter_product_Cons2 Cons.IH) simp
qed

lemma is_best_loop_acc:
  fixes oponent :: die
  defines "step \<equiv> (\<lambda>side1 (count, ties).
             (count + sum_list (map (\<lambda>side2. 1) (filter (\<lambda>side2. side1 > side2) oponent)),
              ties + sum_list (map (\<lambda>side2. 1) (filter (\<lambda>side2. side1 = side2) oponent))))"
  shows "fold step this (c, t) = (c + spec_wins this oponent, t + spec_ties this oponent)"
proof (induction this arbitrary: c t)
  case Nil
  show ?case by (simp add: spec_wins_def spec_ties_def)
next
  case (Cons a this)
  have "step a (c, t) =
          (c + int (length (filter (\<lambda>b. a > b) oponent)),
           t + int (length (filter (\<lambda>b. a = b) oponent)))"
    by (simp add: step_def sum_list_ones)
  then have "fold step (a # this) (c, t) =
          (c + int (length (filter (\<lambda>b. a > b) oponent)) + spec_wins this oponent,
           t + int (length (filter (\<lambda>b. a = b) oponent)) + spec_ties this oponent)"
    by (simp add: Cons.IH)
  also have "\<dots> = (c + spec_wins (a # this) oponent, t + spec_ties (a # this) oponent)"
    by (simp add: spec_wins_def spec_ties_def filter_map o_def)
  finally show ?case .
qed

lemma is_best_loop_eq: "is_best_loop this oponent = (spec_wins this oponent, spec_ties this oponent)"
  unfolding is_best_loop_def by (simp add: is_best_loop_acc)

lemma three_way_count:
  "length (filter (\<lambda>(a, b). a > b) ps) + length (filter (\<lambda>(a, b). a = b) ps)
     + length (filter (\<lambda>(a, b). a < b) ps) = length (ps :: (int \<times> int) list)"
  by (induction ps) auto

lemma losses_eq: 
  "int (length A) * int (length B) - spec_ties A B - spec_wins A B = spec_wins B A"
proof -
  have "spec_wins B A = int (length (filter (\<lambda>(a, b). a < b) (List.product A B)))"
    unfolding spec_wins_def
    by (subst filter_product_swap) (simp add: case_prod_unfold)
  moreover have "int (length (List.product A B)) = int (length A) * int (length B)"
    by simp
  ultimately show ?thesis
    using three_way_count[of "List.product A B"]
    unfolding spec_wins_def spec_ties_def by linarith
qed

lemma is_best_unfold:
  "is_best A B \<longleftrightarrow>
     spec_wins A B > int (length A) * int (length B) - spec_ties A B - spec_wins A B"
  by (simp only: is_best_def is_best_loop_eq Let_def split_conv)

lemma is_best_iff_more_wins: "is_best A B \<longleftrightarrow> spec_wins B A < spec_wins A B"
  by (simp only: is_best_unfold losses_eq)

lemma is_best_irrefl: "\<not> is_best A A"
  by (simp add: is_best_iff_more_wins)


text \<open>
  Claim C3: \<open>is_best A B\<close> is true iff the number of face pairs where the face of \<open>A\<close>
  is greater strictly exceeds \<open>m * n\<close> minus the ties minus that same count, that is,
  iff \<open>A\<close> wins strictly more face pairs than \<open>B\<close> does. Being a HOL function of its
  two arguments, \<open>is_best\<close> depends on nothing else.
\<close>

theorem is_best_meets_spec:
  "is_best A B = is_best_spec A B \<and> is_best A B = (spec_wins B A < spec_wins A B)"
  by (simp only: is_best_iff_more_wins is_best_spec_def losses_eq)


text \<open>
  Claim C4: the comparator is anti-symmetric: for two dice \<open>A \<noteq> B\<close>, \<open>is_best A B\<close> and
  \<open>is_best B A\<close> are never both true.
\<close>

theorem is_best_antisymmetric:
  "A \<noteq> B \<Longrightarrow> \<not> (is_best A B \<and> is_best B A)"
  by (simp add: is_best_iff_more_wins)

theorem is_best_antisymmetric_witness:
  "[1, 1] \<noteq> [1, (0::int)] \<and> is_best [1, 1] [1, 0] \<and> \<not> is_best [1, 0] [1, 1]"
  using is_best_antisymmetric[of "[1, 1]" "[1, 0]"]
  by (simp add: is_best_def is_best_loop_def)


section \<open>Construction of the graph\<close>

lemma set_getitem:
  "set (getitem graph key) =
     (if key \<in> fst ` set graph then set graph else insert (key, ([], [])) (set graph))"
  by (simp add: getitem_def)

lemma in_append_win:
  "(d, (w, l)) \<in> set (append_win this oponent graph) \<longleftrightarrow>
     (\<exists>w0. (d, (w0, l)) \<in> set (getitem graph this)
           \<and> w = (if d = this then w0 @ [oponent] else w0))"
  unfolding append_win_def by (auto simp: image_iff split: prod.splits if_splits)

lemma in_append_lose:
  "(d, (w, l)) \<in> set (append_lose oponent this graph) \<longleftrightarrow>
     (\<exists>l0. (d, (w, l0)) \<in> set (getitem graph oponent)
           \<and> l = (if d = oponent then l0 @ [this] else l0))"
  unfolding append_lose_def by (auto simp: image_iff split: prod.splits if_splits)

lemma keys_getitem: "fst ` set (getitem graph key) = insert key (fst ` set graph)"
  by (auto simp: set_getitem)

lemma keys_append_win: "fst ` set (append_win this oponent graph) = insert this (fst ` set graph)"
proof -
  have "map fst (append_win this oponent graph) = map fst (getitem graph this)"
    unfolding append_win_def by (induction "getitem graph this") (auto split: prod.splits)
  then have "fst ` set (append_win this oponent graph) = fst ` set (getitem graph this)"
    by (metis set_map)
  then show ?thesis by (simp only: keys_getitem)
qed

lemma keys_append_lose: "fst ` set (append_lose oponent this graph) = insert oponent (fst ` set graph)"
proof -
  have "map fst (append_lose oponent this graph) = map fst (getitem graph oponent)"
    unfolding append_lose_def by (simp add: case_prod_unfold comp_def if_distrib cong: if_cong)
  then have "fst ` set (append_lose oponent this graph) = fst ` set (getitem graph oponent)"
    by (metis set_map)
  then show ?thesis by (simp only: keys_getitem)
qed

lemma build_steps_append:
  "build_steps (ps @ qs) graph = build_steps qs (build_steps ps graph)"
  by (simp add: build_steps_def)

lemma build_graph_steps: "build_graph dice = build_steps (List.product dice dice) []"
proof -
  have inner: "fold (compare_pair this) ys = build_steps (map (Pair this) ys)" for this ys
  proof
    fix graph
    show "fold (compare_pair this) ys graph = build_steps (map (Pair this) ys) graph"
      unfolding build_steps_def by (induction ys arbitrary: graph) auto
  qed
  have outer: "fold (\<lambda>this. build_steps (map (Pair this) ys)) xs graph
             = build_steps (List.product xs ys) graph" for xs ys graph
    by (induction xs arbitrary: graph) (simp_all add: build_steps_append, simp add: build_steps_def)
  show ?thesis
    unfolding build_graph_def by (simp add: inner outer)
qed


subsection \<open>No die beats itself\<close>

lemma no_self_edges_append_win:
  "this \<noteq> oponent \<Longrightarrow> no_self_edges graph \<Longrightarrow> no_self_edges (append_win this oponent graph)"
  unfolding no_self_edges_def
  by (fastforce simp: in_append_win set_getitem split: if_splits)

lemma no_self_edges_append_lose:
  "this \<noteq> oponent \<Longrightarrow> no_self_edges graph \<Longrightarrow> no_self_edges (append_lose oponent this graph)"
  unfolding no_self_edges_def
  by (fastforce simp: in_append_lose set_getitem split: if_splits)

lemma no_self_edges_compare_pair:
  "no_self_edges graph \<Longrightarrow> no_self_edges (compare_pair this oponent graph)"
  unfolding compare_pair_def
  using is_best_irrefl[of this]
  by (auto intro!: no_self_edges_append_lose no_self_edges_append_win)

lemma no_self_edges_build_steps:
  "no_self_edges graph \<Longrightarrow> no_self_edges (build_steps pairs graph)"
  unfolding build_steps_def
  by (induction pairs arbitrary: graph) (auto simp: no_self_edges_compare_pair)


text \<open>
  Claim C5: the comparator is irreflexive, \<open>is_best A A\<close> is false for every die, so no
  die is ever recorded as beating itself: after any number of comparisons of the
  cross-product, between the two appends of a decisive comparison, and in the finished
  graph, no die is in its own win-list (or lose-list).
\<close>

theorem never_beats_itself:
  "\<not> is_best A A
   \<and> (\<forall>n. no_self_edges (build_steps (take n (List.product dice dice)) []))
   \<and> (\<forall>n this oponent.
         n < length (List.product dice dice) \<and> List.product dice dice ! n = (this, oponent)
         \<and> is_best this oponent \<longrightarrow>
         no_self_edges (append_win this oponent (build_steps (take n (List.product dice dice)) [])))
   \<and> no_self_edges (build_graph dice)"
proof -
  have empty: "no_self_edges []"
    by (simp add: no_self_edges_def)
  have steps: "no_self_edges (build_steps pairs [])" for pairs
    using empty by (rule no_self_edges_build_steps)
  have "no_self_edges (append_win this oponent (build_steps pairs []))"
    if "is_best this oponent" for this oponent pairs
  proof -
    have "this \<noteq> oponent"
      using that is_best_irrefl by blast
    then show ?thesis
      using steps by (rule no_self_edges_append_win)
  qed
  then show ?thesis
    using steps by (simp add: is_best_irrefl build_graph_steps)
qed

theorem never_beats_itself_witness:
  "\<not> is_best [9, 4, 2] [9, 4, 2]
   \<and> build_graph cyclic_dice \<noteq> []
   \<and> no_self_edges (build_graph cyclic_dice)"
proof -
  have "build_graph cyclic_dice \<noteq> []"
    by code_simp
  then show ?thesis
    using never_beats_itself[of "[9, 4, 2]" cyclic_dice] by simp
qed

subsection \<open>No list holds a die twice\<close>

lemma recorded_no_duplicates:
  "wins_recorded ps graph \<Longrightarrow> loses_recorded qs graph \<Longrightarrow> no_duplicates graph"
  unfolding wins_recorded_def loses_recorded_def no_duplicates_def by fastforce

lemma wins_recorded_mono:
  "wins_recorded ps graph \<Longrightarrow> set ps \<subseteq> set qs \<Longrightarrow> wins_recorded qs graph"
  unfolding wins_recorded_def by fastforce

lemma loses_recorded_mono:
  "loses_recorded ps graph \<Longrightarrow> set ps \<subseteq> set qs \<Longrightarrow> loses_recorded qs graph"
  unfolding loses_recorded_def by fastforce

lemma wins_recorded_append_win:
  assumes "(this, oponent) \<notin> set ps" "wins_recorded ps graph"
  shows "wins_recorded (ps @ [(this, oponent)]) (append_win this oponent graph)"
  unfolding wins_recorded_def
proof (intro ballI, clarify)
  fix d w l
  assume "(d, (w, l)) \<in> set (append_win this oponent graph)"
  then obtain w0 where w0: "(d, (w0, l)) \<in> set (getitem graph this)"
      "w = (if d = this then w0 @ [oponent] else w0)"
    by (auto simp: in_append_win)
  have old: "distinct w0 \<and> (\<forall>x\<in>set w0. (d, x) \<in> set ps)"
    using w0(1) assms(2) unfolding wins_recorded_def
    by (fastforce simp: set_getitem split: if_splits)
  then have "d = this \<Longrightarrow> oponent \<notin> set w0"
    using assms(1) by auto
  then show "distinct w \<and> (\<forall>x\<in>set w. (d, x) \<in> set (ps @ [(this, oponent)]))"
    using old w0(2) by auto
qed

lemma loses_recorded_append_win:
  assumes "loses_recorded ps graph"
  shows "loses_recorded ps (append_win this oponent graph)"
  unfolding loses_recorded_def
proof (intro ballI, clarify)
  fix d w l
  assume "(d, (w, l)) \<in> set (append_win this oponent graph)"
  then obtain w0 where "(d, (w0, l)) \<in> set (getitem graph this)"
    by (auto simp: in_append_win)
  then show "distinct l \<and> (\<forall>x\<in>set l. (x, d) \<in> set ps)"
    using assms unfolding loses_recorded_def
    by (fastforce simp: set_getitem split: if_splits)
qed

lemma loses_recorded_append_lose:
  assumes "(this, oponent) \<notin> set ps" "loses_recorded ps graph"
  shows "loses_recorded (ps @ [(this, oponent)]) (append_lose oponent this graph)"
  unfolding loses_recorded_def
proof (intro ballI, clarify)
  fix d w l
  assume "(d, (w, l)) \<in> set (append_lose oponent this graph)"
  then obtain l0 where l0: "(d, (w, l0)) \<in> set (getitem graph oponent)"
      "l = (if d = oponent then l0 @ [this] else l0)"
    by (auto simp: in_append_lose)
  have old: "distinct l0 \<and> (\<forall>x\<in>set l0. (x, d) \<in> set ps)"
    using l0(1) assms(2) unfolding loses_recorded_def
    by (fastforce simp: set_getitem split: if_splits)
  then have "d = oponent \<Longrightarrow> this \<notin> set l0"
    using assms(1) by auto
  then show "distinct l \<and> (\<forall>x\<in>set l. (x, d) \<in> set (ps @ [(this, oponent)]))"
    using old l0(2) by auto
qed

lemma wins_recorded_append_lose:
  assumes "wins_recorded ps graph"
  shows "wins_recorded ps (append_lose oponent this graph)"
  unfolding wins_recorded_def
proof (intro ballI, clarify)
  fix d w l
  assume "(d, (w, l)) \<in> set (append_lose oponent this graph)"
  then obtain l0 where "(d, (w, l0)) \<in> set (getitem graph oponent)"
    by (auto simp: in_append_lose)
  then show "distinct w \<and> (\<forall>x\<in>set w. (d, x) \<in> set ps)"
    using assms unfolding wins_recorded_def
    by (fastforce simp: set_getitem split: if_splits)
qed

lemma recorded_compare_pair:
  assumes "(this, oponent) \<notin> set ps" "wins_recorded ps graph" "loses_recorded ps graph"
  shows "wins_recorded (ps @ [(this, oponent)]) (compare_pair this oponent graph)
       \<and> loses_recorded (ps @ [(this, oponent)]) (compare_pair this oponent graph)"
proof (cases "is_best this oponent")
  case True
  have "wins_recorded (ps @ [(this, oponent)]) (append_win this oponent graph)"
    using assms(1,2) by (rule wins_recorded_append_win)
  then have "wins_recorded (ps @ [(this, oponent)])
               (append_lose oponent this (append_win this oponent graph))"
    by (rule wins_recorded_append_lose)
  moreover have "loses_recorded ps (append_win this oponent graph)"
    using assms(3) by (rule loses_recorded_append_win)
  then have "loses_recorded (ps @ [(this, oponent)])
               (append_lose oponent this (append_win this oponent graph))"
    using assms(1) by (intro loses_recorded_append_lose)
  ultimately show ?thesis
    using True by (simp add: compare_pair_def)
next
  case False
  have "set ps \<subseteq> set (ps @ [(this, oponent)])"
    by auto
  then have "wins_recorded (ps @ [(this, oponent)]) graph"
      "loses_recorded (ps @ [(this, oponent)]) graph"
    using assms(2,3) wins_recorded_mono loses_recorded_mono by blast+
  then show ?thesis
    using False by (simp add: compare_pair_def)
qed

lemma recorded_build_steps:
  "distinct (ps @ qs) \<Longrightarrow> wins_recorded ps graph \<Longrightarrow> loses_recorded ps graph \<Longrightarrow>
     wins_recorded (ps @ qs) (build_steps qs graph) \<and> loses_recorded (ps @ qs) (build_steps qs graph)"
proof (induction qs arbitrary: ps graph)
  case Nil
  then show ?case by (simp add: build_steps_def)
next
  case (Cons q qs)
  obtain this oponent where q: "q = (this, oponent)" by (cases q)
  have fresh: "(this, oponent) \<notin> set ps"
    using Cons.prems(1) q by auto
  have step: "wins_recorded (ps @ [q]) (compare_pair this oponent graph)
            \<and> loses_recorded (ps @ [q]) (compare_pair this oponent graph)"
    unfolding q using fresh Cons.prems(2,3) by (rule recorded_compare_pair)
  have "distinct ((ps @ [q]) @ qs)"
    using Cons.prems(1) by simp
  then have "wins_recorded ((ps @ [q]) @ qs) (build_steps qs (compare_pair this oponent graph))
           \<and> loses_recorded ((ps @ [q]) @ qs) (build_steps qs (compare_pair this oponent graph))"
    using step by (intro Cons.IH) simp_all
  moreover have "build_steps (q # qs) graph = build_steps qs (compare_pair this oponent graph)"
    by (simp add: build_steps_def q)
  ultimately show ?case by simp
qed

lemma recorded_from_empty:
  assumes "distinct pairs"
  shows "wins_recorded pairs (build_steps pairs []) \<and> loses_recorded pairs (build_steps pairs [])"
proof -
  have "wins_recorded [] []" "loses_recorded [] []"
    by (simp_all add: wins_recorded_def loses_recorded_def)
  then show ?thesis
    using recorded_build_steps[of "[]" pairs "[]"] assms by simp
qed


text \<open>
  Claim C10: every win-list and every lose-list of the graph is free of duplicates at
  every point during and after construction: the generated dice are pairwise distinct,
  so each ordered pair of the cross-product is compared once, and a die is appended to
  a given list at most once. Stated for every configuration with \<open>sides \<ge> 1\<close>: after
  any number of comparisons, between the two appends of a decisive comparison, and in
  the finished graph.
\<close>

theorem lists_have_no_duplicates:
  assumes "1 \<le> sides" and "nat sides \<le> depth"
  shows "\<exists>dice. die_generator depth min_value max_value sides = Some dice
     \<and> (\<forall>n. no_duplicates (build_steps (take n (List.product dice dice)) []))
     \<and> (\<forall>n this oponent.
           n < length (List.product dice dice) \<and> List.product dice dice ! n = (this, oponent)
           \<and> is_best this oponent \<longrightarrow>
           no_duplicates (append_win this oponent (build_steps (take n (List.product dice dice)) [])))
     \<and> no_duplicates (build_graph dice)"
proof -
  obtain dice where dice: "die_generator depth min_value max_value sides = Some dice"
    using die_generator_total[OF assms] by blast
  have "distinct dice"
    using dice assms(1) by (rule die_generator_distinct)
  then have dp: "distinct (List.product dice dice)"
    by (simp add: distinct_product)
  let ?P = "List.product dice dice"
  have pre: "wins_recorded (take n ?P) (build_steps (take n ?P) [])
           \<and> loses_recorded (take n ?P) (build_steps (take n ?P) [])" for n
    using dp by (intro recorded_from_empty) simp
  then have every: "no_duplicates (build_steps (take n ?P) [])" for n
    using recorded_no_duplicates by blast
  have half: "no_duplicates (append_win this oponent (build_steps (take n ?P) []))"
    if "n < length ?P" "?P ! n = (this, oponent)" for n this oponent
  proof -
    have "(this, oponent) \<notin> set (take n ?P)"
    proof
      assume "(this, oponent) \<in> set (take n ?P)"
      then obtain i where i: "i < n" "i < length ?P" "?P ! i = (this, oponent)"
        by (auto simp: in_set_conv_nth)
      then have "?P ! i = ?P ! n"
        using that(2) by simp
      then have "i = n"
        using dp i(2) that(1) by (simp only: nth_eq_iff_index_eq)
      then show False
        using i(1) by simp
    qed
    then have "wins_recorded (take n ?P @ [(this, oponent)])
                 (append_win this oponent (build_steps (take n ?P) []))"
      using pre by (intro wins_recorded_append_win) simp_all
    moreover have "loses_recorded (take n ?P)
                 (append_win this oponent (build_steps (take n ?P) []))"
      using pre by (intro loses_recorded_append_win) simp
    ultimately show ?thesis
      by (rule recorded_no_duplicates)
  qed
  have "no_duplicates (build_graph dice)"
    using every[of "length ?P"] by (simp add: build_graph_steps)
  with dice every half show ?thesis by blast
qed

theorem lists_have_no_duplicates_witness:
  "die_generator 4 MIN_VALUE MAX_VALUE SIDES \<noteq> None
   \<and> (\<exists>dice. die_generator 4 MIN_VALUE MAX_VALUE SIDES = Some dice
         \<and> no_duplicates (build_graph dice))"
proof -
  have "\<exists>dice. die_generator 4 MIN_VALUE MAX_VALUE SIDES = Some dice
         \<and> no_duplicates (build_graph dice)"
    using lists_have_no_duplicates[of SIDES 4 MIN_VALUE MAX_VALUE]
    by (simp add: SIDES_def) blast
  then show ?thesis by auto
qed


subsection \<open>The relation is symmetric\<close>

lemma entry_origin:
  assumes "(d, (w, l)) \<in> set (append_lose oponent this (append_win this oponent graph))"
  shows "\<exists>w0 l0. w = (if d = this then w0 @ [oponent] else w0)
              \<and> l = (if d = oponent then l0 @ [this] else l0)
              \<and> ((d, (w0, l0)) \<in> set graph \<or> (d \<notin> fst ` set graph \<and> w0 = [] \<and> l0 = []))"
proof -
  from assms obtain l0 where l0:
      "(d, (w, l0)) \<in> set (getitem (append_win this oponent graph) oponent)"
      "l = (if d = oponent then l0 @ [this] else l0)"
    by (auto simp: in_append_lose)
  have "(d, (w, l0)) \<in> set (append_win this oponent graph)
        \<or> (d \<notin> fst ` set graph \<and> w = [] \<and> l0 = [] \<and> d \<noteq> this)"
    using l0(1) by (auto simp: set_getitem keys_append_win split: if_splits)
  then show ?thesis
  proof
    assume "(d, (w, l0)) \<in> set (append_win this oponent graph)"
    then obtain w0 where w0: "(d, (w0, l0)) \<in> set (getitem graph this)"
        "w = (if d = this then w0 @ [oponent] else w0)"
      by (auto simp: in_append_win)
    have "(d, (w0, l0)) \<in> set graph \<or> (d \<notin> fst ` set graph \<and> w0 = [] \<and> l0 = [])"
      using w0(1) by (auto simp: set_getitem split: if_splits)
    with w0(2) l0(2) show ?thesis by blast
  next
    assume "d \<notin> fst ` set graph \<and> w = [] \<and> l0 = [] \<and> d \<noteq> this"
    with l0(2) show ?thesis by auto
  qed
qed

lemma keys_record:
  "fst ` set (append_lose oponent this (append_win this oponent graph))
     = insert oponent (insert this (fst ` set graph))"
  by (simp only: keys_append_lose keys_append_win)

lemma closed_record:
  assumes "closed_graph graph"
  shows "closed_graph (append_lose oponent this (append_win this oponent graph))"
  unfolding closed_graph_def
proof (intro ballI, clarify)
  fix d w l
  assume "(d, (w, l)) \<in> set (append_lose oponent this (append_win this oponent graph))"
  then obtain w0 l0 where o: "w = (if d = this then w0 @ [oponent] else w0)"
      "l = (if d = oponent then l0 @ [this] else l0)"
      "(d, (w0, l0)) \<in> set graph \<or> (d \<notin> fst ` set graph \<and> w0 = [] \<and> l0 = [])"
    using entry_origin by blast
  have "set w0 \<subseteq> fst ` set graph \<and> set l0 \<subseteq> fst ` set graph"
    using o(3) assms unfolding closed_graph_def by auto
  then show "set w \<subseteq> fst ` set (append_lose oponent this (append_win this oponent graph))
           \<and> set l \<subseteq> fst ` set (append_lose oponent this (append_win this oponent graph))"
    unfolding keys_record using o(1,2) by auto
qed

lemma symmetric_record:
  assumes sym: "symmetric_graph graph" and cl: "closed_graph graph"
  shows "symmetric_graph (append_lose oponent this (append_win this oponent graph))"
  unfolding symmetric_graph_def
proof (intro ballI, clarify)
  fix A wA lA B wB lB
  assume "(A, (wA, lA)) \<in> set (append_lose oponent this (append_win this oponent graph))"
  then obtain wA0 lA0 where a: "wA = (if A = this then wA0 @ [oponent] else wA0)"
      "(A, (wA0, lA0)) \<in> set graph \<or> (A \<notin> fst ` set graph \<and> wA0 = [] \<and> lA0 = [])"
    using entry_origin by blast
  assume "(B, (wB, lB)) \<in> set (append_lose oponent this (append_win this oponent graph))"
  then obtain wB0 lB0 where b: "lB = (if B = oponent then lB0 @ [this] else lB0)"
      "(B, (wB0, lB0)) \<in> set graph \<or> (B \<notin> fst ` set graph \<and> wB0 = [] \<and> lB0 = [])"
    using entry_origin by blast
  have old: "B \<in> set wA0 \<longleftrightarrow> A \<in> set lB0"
  proof (cases "(A, (wA0, lA0)) \<in> set graph")
    case inA: True
    show ?thesis
    proof (cases "(B, (wB0, lB0)) \<in> set graph")
      case True
      with inA sym show ?thesis unfolding symmetric_graph_def by fastforce
    next
      case False
      then have "B \<notin> fst ` set graph" "lB0 = []" using b(2) by auto
      moreover have "set wA0 \<subseteq> fst ` set graph"
        using inA cl unfolding closed_graph_def by fastforce
      ultimately show ?thesis by auto
    qed
  next
    case False
    then have nA: "A \<notin> fst ` set graph" "wA0 = []" using a(2) by auto
    have "A \<notin> set lB0"
    proof (cases "(B, (wB0, lB0)) \<in> set graph")
      case True
      then have "set lB0 \<subseteq> fst ` set graph"
        using cl unfolding closed_graph_def by fastforce
      with nA(1) show ?thesis by auto
    next
      case False
      then show ?thesis using b(2) by auto
    qed
    with nA(2) show ?thesis by simp
  qed
  show "B \<in> set wA \<longleftrightarrow> A \<in> set lB"
    using old a(1) b(1) by auto
qed

lemma sym_closed_compare_pair:
  "symmetric_graph graph \<and> closed_graph graph \<Longrightarrow>
     symmetric_graph (compare_pair this oponent graph) \<and> closed_graph (compare_pair this oponent graph)"
  unfolding compare_pair_def by (simp add: symmetric_record closed_record)

lemma sym_closed_build_steps:
  "symmetric_graph graph \<and> closed_graph graph \<Longrightarrow>
     symmetric_graph (build_steps pairs graph) \<and> closed_graph (build_steps pairs graph)"
proof (induction pairs arbitrary: graph)
  case Nil
  then show ?case by (simp add: build_steps_def)
next
  case (Cons p pairs)
  obtain this oponent where p: "p = (this, oponent)" by (cases p)
  have "build_steps (p # pairs) graph = build_steps pairs (compare_pair this oponent graph)"
    by (simp add: build_steps_def p)
  then show ?case
    using Cons.IH[OF sym_closed_compare_pair[OF Cons.prems]] by simp
qed


section \<open>The reducer\<close>

lemma to_delete_clean: "to_delete (clean graph) = []"
proof (induction graph rule: clean.induct)
  case (1 graph)
  show ?case
  proof (cases "to_delete graph = []")
    case True
    then show ?thesis by (subst clean.simps) simp
  next
    case False
    with 1 show ?thesis by (subst clean.simps) simp
  qed
qed

lemma clean_fixed: "to_delete graph = [] \<Longrightarrow> clean graph = graph"
  by (subst clean.simps) simp

lemma to_delete_empty_iff:
  "to_delete graph = [] \<longleftrightarrow> (\<forall>(die, (w, l)) \<in> set graph. w \<noteq> [] \<and> l \<noteq> [])"
  by (auto simp: to_delete_def filter_empty_conv)


text \<open>
  Claim C6: after \<open>clean\<close> returns, every die remaining in the graph has a non-empty
  win-set and a non-empty lose-set.
\<close>

theorem clean_result_mixed:
  "\<forall>(die, (w, l)) \<in> set (clean graph). w \<noteq> [] \<and> l \<noteq> []"
  using to_delete_clean[of graph] by (simp only: to_delete_empty_iff)


theorem clean_result_mixed_witness:
  "clean (build_graph cyclic_dice) \<noteq> []
   \<and> list_all (\<lambda>(die, (w, l)). w \<noteq> [] \<and> l \<noteq> []) (clean (build_graph cyclic_dice))"
proof -
  have "clean (build_graph cyclic_dice) \<noteq> []"
    by code_simp
  then show ?thesis
    using clean_result_mixed[of "build_graph cyclic_dice"] by (simp add: list_all_iff)
qed

text \<open>
  Claim C7: the reducer is idempotent: \<open>clean\<close> applied to the output of \<open>clean\<close> finds
  no die to delete and leaves the graph unchanged.
\<close>

theorem clean_idempotent:
  "to_delete (clean graph) = [] \<and> clean (clean graph) = clean graph"
  by (simp add: to_delete_clean clean_fixed)


text \<open>
  The loop of \<open>clean\<close> runs \<open>clean_pass\<close> some number \<open>n\<close> of times, at most once per
  node, and stops at the first graph with nothing to delete.
\<close>

lemma clean_iterates:
  "\<exists>n\<le>length graph. clean graph = (clean_pass ^^ n) graph
      \<and> to_delete ((clean_pass ^^ n) graph) = []
      \<and> (\<forall>m<n. to_delete ((clean_pass ^^ m) graph) \<noteq> [])"
proof (induction graph rule: clean.induct)
  case (1 graph)
  show ?case
  proof (cases "to_delete graph = []")
    case True
    then have "clean graph = (clean_pass ^^ 0) graph" "to_delete ((clean_pass ^^ 0) graph) = []"
      by (simp_all add: clean_fixed)
    then show ?thesis by blast
  next
    case False
    then obtain n where n: "n \<le> length (clean_pass graph)"
        "clean (clean_pass graph) = (clean_pass ^^ n) (clean_pass graph)"
        "to_delete ((clean_pass ^^ n) (clean_pass graph)) = []"
        "\<forall>m<n. to_delete ((clean_pass ^^ m) (clean_pass graph)) \<noteq> []"
      using 1 by auto
    have less: "length (clean_pass graph) < length graph"
      using False by (rule clean_pass_shrinks)
    have "Suc n \<le> length graph"
      using n(1) less by simp
    moreover have "clean graph = (clean_pass ^^ Suc n) graph"
      using False n(2) by (subst clean.simps) (simp add: funpow_swap1)
    moreover have "to_delete ((clean_pass ^^ Suc n) graph) = []"
      using n(3) by (simp add: funpow_swap1)
    moreover have "\<forall>m<Suc n. to_delete ((clean_pass ^^ m) graph) \<noteq> []"
    proof (intro allI impI)
      fix m assume "m < Suc n"
      show "to_delete ((clean_pass ^^ m) graph) \<noteq> []"
      proof (cases m)
        case 0
        then show ?thesis using False by simp
      next
        case (Suc k)
        then have "k < n" using \<open>m < Suc n\<close> by simp
        then show ?thesis using n(4) Suc by (simp add: funpow_swap1)
      qed
    qed
    ultimately show ?thesis by blast
  qed
qed


text \<open>
  Claim C8: \<open>clean\<close> terminates on every graph (it is a total function: its definition
  was accepted with the number of nodes as the measure). A pass that deletes anything
  strictly decreases the number of nodes; a pass that identifies no die returns the
  graph as it is; and the result is reached after at most as many passes as the graph
  has nodes, the first point where no die qualifies.
\<close>

theorem clean_terminates:
  "(to_delete graph \<noteq> [] \<longrightarrow> length (clean_pass graph) < length graph)
   \<and> (to_delete graph = [] \<longrightarrow> clean graph = graph)
   \<and> (\<exists>n\<le>length graph. clean graph = (clean_pass ^^ n) graph
          \<and> to_delete ((clean_pass ^^ n) graph) = []
          \<and> (\<forall>m<n. to_delete ((clean_pass ^^ m) graph) \<noteq> []))"
  using clean_pass_shrinks[of graph] clean_fixed[of graph] clean_iterates[of graph]
  by blast


theorem clean_terminates_witness:
  "to_delete (build_graph binary_dice) \<noteq> []
   \<and> length (clean_pass (build_graph binary_dice)) < length (build_graph binary_dice)
   \<and> (\<exists>n\<le>length (build_graph binary_dice).
         clean (build_graph binary_dice) = (clean_pass ^^ n) (build_graph binary_dice)
         \<and> to_delete ((clean_pass ^^ n) (build_graph binary_dice)) = [])
   \<and> clean (build_graph binary_dice) = []"
proof -
  have ne: "to_delete (build_graph binary_dice) \<noteq> []"
    by code_simp
  have "clean (build_graph binary_dice) = []"
    by code_simp
  then show ?thesis
    using ne clean_terminates[of "build_graph binary_dice"] by blast
qed

subsection \<open>Pruning keeps the relation symmetric\<close>

lemma set_fold_del_item:
  "set (fold del_item dead graph) = {e \<in> set graph. fst e \<notin> set dead}"
  by (induction dead arbitrary: graph) (auto simp: del_item_def)

lemma remove_refs_keeps:
  "x \<notin> set dead \<Longrightarrow>
     (x \<in> set (fst (remove_refs dead wl)) \<longleftrightarrow> x \<in> set (fst wl))
   \<and> (x \<in> set (snd (remove_refs dead wl)) \<longleftrightarrow> x \<in> set (snd wl))"
  unfolding remove_refs_def
  by (induction dead arbitrary: wl) (auto split: prod.splits)

lemma in_clean_pass:
  "(d, wl') \<in> set (clean_pass graph) \<longleftrightarrow>
     (\<exists>wl. (d, wl) \<in> set graph \<and> d \<notin> set (to_delete graph) \<and> wl' = remove_refs (to_delete graph) wl)"
  unfolding clean_pass_def Let_def by (auto simp: set_fold_del_item image_iff)

lemma symmetric_clean_pass:
  assumes "symmetric_graph graph"
  shows "symmetric_graph (clean_pass graph)"
  unfolding symmetric_graph_def
proof (intro ballI, clarify)
  fix A wA lA B wB lB
  assume "(A, (wA, lA)) \<in> set (clean_pass graph)" "(B, (wB, lB)) \<in> set (clean_pass graph)"
  then obtain wlA wlB where
      A: "(A, wlA) \<in> set graph" "A \<notin> set (to_delete graph)"
         "(wA, lA) = remove_refs (to_delete graph) wlA"
    and B: "(B, wlB) \<in> set graph" "B \<notin> set (to_delete graph)"
         "(wB, lB) = remove_refs (to_delete graph) wlB"
    by (auto simp: in_clean_pass)
  have "B \<in> set wA \<longleftrightarrow> B \<in> set (fst wlA)"
    using remove_refs_keeps[OF B(2), of wlA] A(3)[symmetric] by simp
  moreover have "A \<in> set lB \<longleftrightarrow> A \<in> set (snd wlB)"
    using remove_refs_keeps[OF A(2), of wlB] B(3)[symmetric] by simp
  moreover have "B \<in> set (fst wlA) \<longleftrightarrow> A \<in> set (snd wlB)"
    using assms A(1) B(1) unfolding symmetric_graph_def by (cases wlA; cases wlB) fastforce
  ultimately show "B \<in> set wA \<longleftrightarrow> A \<in> set lB" by simp
qed

lemma symmetric_clean: "symmetric_graph graph \<Longrightarrow> symmetric_graph (clean graph)"
proof (induction graph rule: clean.induct)
  case (1 graph)
  show ?case
  proof (cases "to_delete graph = []")
    case True
    then show ?thesis using 1(2) by (simp add: clean_fixed)
  next
    case False
    then have "clean graph = clean (clean_pass graph)"
      by (subst clean.simps) simp
    then show ?thesis
      using 1(1) False symmetric_clean_pass[OF 1(2)] by simp
  qed
qed


text \<open>
  Claim C9: the relation is symmetric after construction completes and again after
  \<open>clean\<close> returns: for all dice \<open>A\<close> and \<open>B\<close> in the graph, \<open>B\<close> is in the win-list of
  \<open>A\<close> iff \<open>A\<close> is in the lose-list of \<open>B\<close>. It holds for the graph built from any
  sequence of dice, so for the generated one.
\<close>

theorem graph_symmetric:
  "symmetric_graph (build_graph dice) \<and> symmetric_graph (clean (build_graph dice))"
proof -
  have "symmetric_graph [] \<and> closed_graph []"
    by (simp add: symmetric_graph_def closed_graph_def)
  then have "symmetric_graph (build_graph dice)"
    unfolding build_graph_steps using sym_closed_build_steps by blast
  then show ?thesis
    by (simp add: symmetric_clean)
qed


theorem graph_symmetric_witness:
  "clean (build_graph cyclic_dice) \<noteq> []
   \<and> symmetric_graph (build_graph cyclic_dice)
   \<and> symmetric_graph (clean (build_graph cyclic_dice))"
proof -
  have "clean (build_graph cyclic_dice) \<noteq> []"
    by code_simp
  then show ?thesis
    using graph_symmetric[of cyclic_dice] by simp
qed

section \<open>The graph stays a dictionary\<close>

text \<open>
  The association list never holds a key twice, neither while the graph is built nor
  while it is pruned, and each key that \<open>clean\<close> deletes is present at the moment of
  its deletion.
\<close>

lemma keys_list_append_win:
  "map fst (append_win this oponent graph) = map fst (getitem graph this)"
  unfolding append_win_def by (simp add: case_prod_unfold comp_def if_distrib cong: if_cong)

lemma keys_list_append_lose:
  "map fst (append_lose oponent this graph) = map fst (getitem graph oponent)"
  unfolding append_lose_def by (simp add: case_prod_unfold comp_def if_distrib cong: if_cong)

lemma distinct_keys_getitem:
  "distinct (map fst graph) \<Longrightarrow> distinct (map fst (getitem graph key))"
  by (simp add: getitem_def)

lemma distinct_keys_compare_pair:
  "distinct (map fst graph) \<Longrightarrow> distinct (map fst (compare_pair this oponent graph))"
  unfolding compare_pair_def
  by (simp add: keys_list_append_win keys_list_append_lose distinct_keys_getitem)

lemma distinct_keys_build_steps:
  "distinct (map fst graph) \<Longrightarrow> distinct (map fst (build_steps pairs graph))"
  unfolding build_steps_def
  by (induction pairs arbitrary: graph) (auto simp: distinct_keys_compare_pair)

lemma distinct_keys_build_graph: "distinct (map fst (build_graph dice))"
  unfolding build_graph_steps by (rule distinct_keys_build_steps) simp

lemma to_delete_keys:
  assumes "distinct (map fst graph)"
  shows "distinct (to_delete graph) \<and> set (to_delete graph) \<subseteq> fst ` set graph"
  using assms unfolding to_delete_def by (auto simp: distinct_map_filter)

lemma del_item_key_present:
  assumes "distinct (map fst graph)" "i < length (to_delete graph)"
  shows "to_delete graph ! i \<in> fst ` set (fold del_item (take i (to_delete graph)) graph)"
proof -
  let ?dead = "to_delete graph"
  have d: "distinct ?dead" and sub: "set ?dead \<subseteq> fst ` set graph"
    using to_delete_keys[OF assms(1)] by blast+
  have "?dead ! i \<notin> set (take i ?dead)"
  proof
    assume "?dead ! i \<in> set (take i ?dead)"
    then obtain j where j: "j < i" "?dead ! j = ?dead ! i"
      using assms(2) by (auto simp: in_set_conv_nth)
    then have "j = i"
      using d assms(2) by (simp add: nth_eq_iff_index_eq)
    with j(1) show False by simp
  qed
  moreover have "?dead ! i \<in> fst ` set graph"
    using sub assms(2) by auto
  ultimately show ?thesis
    by (auto simp: set_fold_del_item)
qed

lemma distinct_keys_clean_pass:
  assumes "distinct (map fst graph)"
  shows "distinct (map fst (clean_pass graph))"
proof -
  have "distinct (map fst (fold del_item dead g))" if "distinct (map fst g)" for dead g
    using that by (induction dead arbitrary: g) (auto simp: del_item_def distinct_map_filter)
  then show ?thesis
    using assms unfolding clean_pass_def Let_def
    by (simp add: case_prod_unfold comp_def)
qed

lemma distinct_keys_clean:
  "distinct (map fst graph) \<Longrightarrow> distinct (map fst (clean graph))"
proof (induction graph rule: clean.induct)
  case (1 graph)
  show ?case
  proof (cases "to_delete graph = []")
    case True
    then show ?thesis using 1(2) by (simp add: clean_fixed)
  next
    case False
    then have "clean graph = clean (clean_pass graph)"
      by (subst clean.simps) simp
    then show ?thesis
      using 1(1) False distinct_keys_clean_pass[OF 1(2)] by simp
  qed
qed


end
